theory Spec2Isabelle
  imports Main "HOL-Library.Multiset"
begin

section \<open>The bipartition builder \<open>bipCPP\<close> of \<open>src/phangorn_bip.cpp\<close>\<close>

text \<open>
  \<open>bipCPP(orig, nTips)\<close> takes the edge matrix of a rooted tree (column 0 the parent
  id of an edge, column 1 its child id) and the number of tips, and returns, for
  every node id \<open>1..max(parent)\<close>, the sorted list of the tip labels below it.

  The embedding follows the C++ text statement by statement. The local variables of
  the function form a record; every statement is a function on that record; every
  loop is a recursive function on the loop counter. Ids are mathematical integers:
  no arithmetic of the function leaves the range of a C++ \<open>int\<close> on an input that
  holds \<open>int\<close> values other than R's \<open>NA\<close>.
\<close>

subsection \<open>Data\<close>

text \<open>
  The edge matrix is the list of its rows; a row is the pair of the two columns that
  the function reads, \<open>(orig(i, 0), orig(i, 1))\<close>. The matrix may have no rows.
\<close>

type_synonym IntegerMatrix = "(int \<times> int) list"

text \<open>
  The variables of \<open>bipCPP\<close>. \<open>orig\<close> is the caller's matrix (an Rcpp matrix is a
  handle on the caller's object), \<open>parent\<close> and \<open>children\<close> are the copies of its
  columns, \<open>out\<close> is the table of containers, \<open>y\<close> the copy of a child's container,
  \<open>m\<close> and \<open>j\<close> the two \<open>int\<close> variables (the fields of the one-letter variables
  carry the suffix \<open>_var\<close>).
\<close>

record bip_state =
  orig :: IntegerMatrix
  parent :: "int list"
  children :: "int list"
  m_var :: int
  j_var :: int
  out :: "int list list"
  y_var :: "int list"

text \<open>
  Two things end a run before the \<open>return\<close> statement as far as the embedding
  follows it. \<open>LengthError\<close> is the C++ exception that the constructor
  \<open>std::vector<...> out(m)\<close> throws when \<open>m\<close> is negative (the count converts to an
  unsigned size beyond \<open>max_size()\<close>); the exported wrapper (lines 33 to 42, between
  \<open>BEGIN_RCPP\<close> and \<open>END_RCPP\<close>) hands it to R as an error. \<open>OutOfBounds\<close> marks that
  the run has reached an index outside a vector handed to the unchecked
  \<open>operator[]\<close>. C++ gives such an access no defined behaviour: the embedding
  follows the run up to that access and no further, and says nothing of what the
  program does from there (a table, an error and a crash are all possible). Either
  mark comes with the variables as they were at that statement.
\<close>

datatype error = LengthError | OutOfBounds

type_synonym failure = "error \<times> bip_state"

definition in_bounds :: "'a list \<Rightarrow> int \<Rightarrow> bool" where
  "in_bounds v k \<longleftrightarrow> 0 \<le> k \<and> k < int (length v)"

subsection \<open>The statements of \<open>bipCPP\<close>\<close>

text \<open>
  \<open>max(parent)\<close> is Rcpp's sugar function: it starts from the first element and
  keeps the larger one while it walks the rest. Its source is not part of the
  repository; what it yields on a vector of length 0 is the parameter \<open>d\<close>, which
  nothing else reads (for a matrix with at least one row the run does not depend
  on \<open>d\<close>).
\<close>

fun max_sugar :: "int \<Rightarrow> int list \<Rightarrow> int" where
  "max_sugar d [] = d"
| "max_sugar d (x # xs) = fold max xs x"

text \<open>
  Lines 9 to 11 and 14: the two columns are copied out of the matrix, \<open>m\<close> is the
  largest parent id, \<open>j\<close> is 0 and \<open>y\<close> is empty. \<open>out\<close> is not constructed yet;
  its field holds the empty list until line 13.
\<close>

definition init_frame :: "int \<Rightarrow> IntegerMatrix \<Rightarrow> bip_state" where
  "init_frame d M =
     \<lparr>orig = M, parent = map fst M, children = map snd M,
      m_var = max_sugar d (map fst M), j_var = 0, out = [], y_var = []\<rparr>"

text \<open>Line 13: \<open>std::vector< std::vector<int> > out(m)\<close>, a table of \<open>m\<close> empty containers.\<close>

definition alloc_out :: "bip_state \<Rightarrow> failure + bip_state" where
  "alloc_out s =
     (if m_var s < 0 then Inl (LengthError, s)
      else Inr (s\<lparr>out := replicate (nat (m_var s)) []\<rparr>))"

text \<open>
  Lines 15 to 17: \<open>for (i = 0; i < nTips; i++) out[i].push_back(i + 1)\<close>.
\<close>

function seed_tips :: "int \<Rightarrow> int \<Rightarrow> bip_state \<Rightarrow> failure + bip_state" where
  "seed_tips i nTips s =
     (if i < nTips then
        (if in_bounds (out s) i
         then seed_tips (i + 1) nTips (s\<lparr>out := (out s)[nat i := out s ! nat i @ [i + 1]]\<rparr>)
         else Inl (OutOfBounds, s))
      else Inr s)"
  by pat_completeness auto
termination
  by (relation "measure (\<lambda>(i, nTips, s). nat (nTips - i))") auto

text \<open>
  Lines 19 to 24, the body of the loop over the edges at counter \<open>i\<close>:
  \<open>j = parent[i] - 1\<close>; then, for a child id above \<open>nTips\<close>,
  \<open>y = out[children[i] - 1]\<close> and the elements of \<open>y\<close> are inserted at the end of
  \<open>out[j]\<close>; otherwise \<open>out[j].push_back(children[i])\<close>.
\<close>

definition edge_body :: "int \<Rightarrow> int \<Rightarrow> bip_state \<Rightarrow> failure + bip_state" where
  "edge_body i nTips s =
     (if in_bounds (parent s) i then
        (let s1 = s\<lparr>j_var := parent s ! nat i - 1\<rparr> in
         if in_bounds (children s1) i then
           (if children s1 ! nat i > nTips then
              (if in_bounds (out s1) (children s1 ! nat i - 1) then
                 (let s2 = s1\<lparr>y_var := out s1 ! nat (children s1 ! nat i - 1)\<rparr> in
                  if in_bounds (out s2) (j_var s2)
                  then Inr (s2\<lparr>out := (out s2)[nat (j_var s2) :=
                                      out s2 ! nat (j_var s2) @ y_var s2]\<rparr>)
                  else Inl (OutOfBounds, s2))
               else Inl (OutOfBounds, s1))
            else
              (if in_bounds (out s1) (j_var s1)
               then Inr (s1\<lparr>out := (out s1)[nat (j_var s1) :=
                                   out s1 ! nat (j_var s1) @ [children s1 ! nat i]]\<rparr>)
               else Inl (OutOfBounds, s1)))
         else Inl (OutOfBounds, s1))
      else Inl (OutOfBounds, s))"

text \<open>Line 18: \<open>for (i = 0; i < parent.size(); i++)\<close> around that body.\<close>

function edges_loop :: "int \<Rightarrow> int \<Rightarrow> bip_state \<Rightarrow> failure + bip_state" where
  "edges_loop i nTips s =
     (if i < int (length (parent s)) then
        (case edge_body i nTips s of
           Inl f \<Rightarrow> Inl f
         | Inr s' \<Rightarrow> edges_loop (i + 1) nTips s')
      else Inr s)"
  by pat_completeness auto
termination
  by (relation "measure (\<lambda>(i, nTips, s). length (parent s) - nat i)")
     (auto simp: edge_body_def in_bounds_def Let_def split: if_splits)

text \<open>
  Lines 26 to 28: \<open>for (i = 0; i < m; ++i) sort(out[i].begin(), out[i].end())\<close>.
  \<open>std::sort\<close> leaves the ascending arrangement of the elements, which for integers
  is the list \<open>sort\<close> computes.
\<close>

function sort_loop :: "int \<Rightarrow> bip_state \<Rightarrow> failure + bip_state" where
  "sort_loop i s =
     (if i < m_var s then
        (if in_bounds (out s) i
         then sort_loop (i + 1) (s\<lparr>out := (out s)[nat i := sort (out s ! nat i)]\<rparr>)
         else Inl (OutOfBounds, s))
      else Inr s)"
  by pat_completeness auto
termination
  by (relation "measure (\<lambda>(i, s). nat (m_var s - i))") auto

text \<open>
  The whole body, lines 9 to 28, from the arguments to the variables at the
  \<open>return\<close> statement.
\<close>

definition bipCPP_run :: "int \<Rightarrow> IntegerMatrix \<Rightarrow> int \<Rightarrow> failure + bip_state" where
  "bipCPP_run d M nTips =
     (case alloc_out (init_frame d M) of
        Inl f \<Rightarrow> Inl f
      | Inr s1 \<Rightarrow>
          (case seed_tips 0 nTips s1 of
             Inl f \<Rightarrow> Inl f
           | Inr s2 \<Rightarrow>
               (case edges_loop 0 nTips s2 of
                  Inl f \<Rightarrow> Inl f
                | Inr s3 \<Rightarrow> sort_loop 0 s3)))"

text \<open>
  Line 29: \<open>return wrap(out)\<close>. Entry \<open>i - 1\<close> of the list is the set of node \<open>i\<close>.
  \<open>Inl OutOfBounds\<close> says that the run reaches an access out of range, not what the
  caller receives from there.
\<close>

definition bipCPP :: "int \<Rightarrow> IntegerMatrix \<Rightarrow> int \<Rightarrow> error + int list list" where
  "bipCPP d M nTips =
     (case bipCPP_run d M nTips of
        Inl (e, s) \<Rightarrow> Inl e
      | Inr s \<Rightarrow> Inr (out s))"

text \<open>
  The variables at the statement up to which a run is followed: the \<open>return\<close>
  statement, the allocation that throws, or the access out of range.
\<close>

definition last_frame :: "failure + bip_state \<Rightarrow> bip_state" where
  "last_frame r = (case r of Inl (e, s) \<Rightarrow> s | Inr s \<Rightarrow> s)"

subsection \<open>Valid trees\<close>

text \<open>
  \<open>maxNodeId\<close> is the largest id in the parent column, the value of \<open>m\<close> for a
  matrix with at least one row. \<open>children_of M i\<close> lists the child ids of the edges
  \<open>(i, c)\<close>, in the order of the rows.
\<close>

definition maxNodeId :: "IntegerMatrix \<Rightarrow> int" where
  "maxNodeId M = Max (set (map fst M))"

definition children_of :: "IntegerMatrix \<Rightarrow> int \<Rightarrow> int list" where
  "children_of M i = map snd (filter (\<lambda>e. fst e = i) M)"

text \<open>
  The edges are in bottom-up order when an internal child (an id above \<open>nTips\<close>) is
  the parent of no edge at or after the edge that names it as a child: all the edges
  below a node come before the edge above it.
\<close>

fun bottom_up :: "int \<Rightarrow> IntegerMatrix \<Rightarrow> bool" where
  "bottom_up nTips [] = True"
| "bottom_up nTips (e # M) =
     ((nTips < snd e \<longrightarrow> snd e \<noteq> fst e \<and> snd e \<notin> set (map fst M)) \<and> bottom_up nTips M)"

text \<open>The ids of \<open>1..maxNodeId\<close> that are the child of no edge.\<close>

definition roots :: "IntegerMatrix \<Rightarrow> int list" where
  "roots M = filter (\<lambda>i. i \<notin> set (map snd M)) [1..maxNodeId M]"

text \<open>
  A valid tree input: at least one edge and one tip, \<open>nTips \<le> maxNodeId\<close>; all ids
  positive and none above \<open>maxNodeId\<close>; the ids \<open>1..nTips\<close> are the tips (each
  hangs on an edge and has no children); every id of \<open>nTips + 1..maxNodeId\<close> is an
  internal node, one node per id, and the parent of the edges to its children (one
  row for each child); a node is the child of one edge at most and a single node,
  the root, of none; the edges are in bottom-up order.
\<close>

definition valid_tree :: "IntegerMatrix \<Rightarrow> int \<Rightarrow> bool" where
  "valid_tree M nTips \<longleftrightarrow>
     M \<noteq> [] \<and> 0 < nTips \<and> nTips \<le> maxNodeId M \<and>
     (\<forall>e \<in> set M. 0 < fst e \<and> 0 < snd e \<and> snd e \<le> maxNodeId M) \<and>
     (\<forall>t \<in> set [1..nTips]. t \<in> set (map snd M) \<and> t \<notin> set (map fst M)) \<and>
     (\<forall>i \<in> set [nTips + 1..maxNodeId M]. i \<in> set (map fst M)) \<and>
     distinct (map snd M) \<and>
     length (roots M) = 1 \<and>
     bottom_up nTips M"

text \<open>The tips below node \<open>i\<close>: the tip ids that a path of edges reaches from \<open>i\<close>.\<close>

definition leaf_set :: "IntegerMatrix \<Rightarrow> int \<Rightarrow> int \<Rightarrow> int set" where
  "leaf_set M nTips i = {t. 1 \<le> t \<and> t \<le> nTips \<and> (i, t) \<in> (set M)\<^sup>+}"

subsection \<open>The loops on runs that stay in range\<close>

text \<open>
  The definitions of this subsection serve the proofs only. \<open>edge_step\<close> is the
  change that the loop body makes to the table for one row when both indices are in
  range, \<open>edge_steps\<close> its iteration over the rows, \<open>edge_ok\<close> the range condition,
  \<open>seeded\<close> the table after the seeding loop, and \<open>final_table\<close> the table before
  the sorting loop. \<open>entry v i\<close> is the container of node \<open>i\<close>, and \<open>appended\<close> is
  what a row appends for the child \<open>c\<close>.
\<close>

definition entry :: "'a list \<Rightarrow> int \<Rightarrow> 'a" where
  "entry v i = v ! nat (i - 1)"

definition appended :: "int \<Rightarrow> int list list \<Rightarrow> int \<Rightarrow> int list" where
  "appended n v c = (if n < c then entry v c else [c])"

definition edge_step :: "int \<Rightarrow> int list list \<Rightarrow> int \<times> int \<Rightarrow> int list list" where
  "edge_step nTips v e =
     (case e of (p, c) \<Rightarrow>
        v[nat (p - 1) := v ! nat (p - 1) @ (if nTips < c then v ! nat (c - 1) else [c])])"

definition edge_steps :: "int \<Rightarrow> int list list \<Rightarrow> IntegerMatrix \<Rightarrow> int list list" where
  "edge_steps nTips v M = foldl (edge_step nTips) v M"

definition edge_ok :: "int \<Rightarrow> nat \<Rightarrow> int \<times> int \<Rightarrow> bool" where
  "edge_ok nTips L e =
     (case e of (p, c) \<Rightarrow> 1 \<le> p \<and> p \<le> int L \<and> (nTips < c \<longrightarrow> 1 \<le> c \<and> c \<le> int L))"

definition seeded :: "int \<Rightarrow> nat \<Rightarrow> int list list" where
  "seeded nTips L = map (\<lambda>k. if int k < nTips then [int k + 1] else []) [0..<L]"

definition final_table :: "int \<Rightarrow> IntegerMatrix \<Rightarrow> int list list" where
  "final_table n M = edge_steps n (seeded n (nat (maxNodeId M))) M"

text \<open>
  The invariant of the loop over the edges on a valid tree. \<open>C\<close> holds the ids that
  were the child of an edge so far: every container is free of duplicates, the
  containers of two nodes outside \<open>C\<close> share no label, the container of a tip holds
  the tip alone, and the containers of the nodes outside \<open>C\<close> hold all the tips.
\<close>

definition tree_inv :: "int \<Rightarrow> nat \<Rightarrow> int set \<Rightarrow> int list list \<Rightarrow> bool" where
  "tree_inv n L C v \<longleftrightarrow>
     length v = L \<and>
     (\<forall>i. 1 \<le> i \<and> i \<le> int L \<longrightarrow> distinct (entry v i)) \<and>
     (\<forall>i i'. 1 \<le> i \<and> i \<le> int L \<and> i \<notin> C \<and> 1 \<le> i' \<and> i' \<le> int L \<and> i' \<notin> C \<and> i \<noteq> i' \<longrightarrow>
        set (entry v i) \<inter> set (entry v i') = {}) \<and>
     (\<forall>t. 1 \<le> t \<and> t \<le> n \<longrightarrow> entry v t = [t]) \<and>
     (\<Union>i \<in> {i. 1 \<le> i \<and> i \<le> int L \<and> i \<notin> C}. set (entry v i)) = {1..n}"

text \<open>
  The equations of the three loops unfold without end, so the simplifier applies them
  only where a proof names them.
\<close>

declare seed_tips.simps [simp del]
declare edges_loop.simps [simp del]
declare sort_loop.simps [simp del]

section \<open>The loops\<close>

subsection \<open>Runs that stay in range\<close>

text \<open>
  When the indices of a row are in range the loop body returns, and the table
  changes by \<open>edge_step\<close>; the loop over the rows then changes it by
  \<open>edge_steps\<close>.
\<close>

lemma length_edge_step [simp]: "length (edge_step n v e) = length v"
  by (simp add: edge_step_def split: prod.split)

lemma length_edge_steps [simp]: "length (edge_steps n v M) = length v"
  unfolding edge_steps_def by (induction M arbitrary: v) simp_all

lemma edge_steps_Nil [simp]: "edge_steps n v [] = v"
  by (simp add: edge_steps_def)

lemma edge_steps_Cons [simp]: "edge_steps n v (e # M) = edge_steps n (edge_step n v e) M"
  by (simp add: edge_steps_def)

lemma edge_ok_pair:
  "edge_ok n L (p, c) \<longleftrightarrow> 1 \<le> p \<and> p \<le> int L \<and> (n < c \<longrightarrow> 1 \<le> c \<and> c \<le> int L)"
  by (simp add: edge_ok_def)

lemma edge_body_ok:
  assumes "0 \<le> i" "nat i < length M" "parent s = map fst M" "children s = map snd M"
    and "edge_ok n (length (out s)) (M ! nat i)"
  shows "\<exists>s'. edge_body i n s = Inr s' \<and> out s' = edge_step n (out s) (M ! nat i) \<and>
           orig s' = orig s \<and> parent s' = parent s \<and> children s' = children s \<and>
           m_var s' = m_var s"
  using assms
  by (cases "M ! nat i") (auto simp: edge_body_def in_bounds_def edge_ok_def edge_step_def Let_def)

lemma edges_loop_ok:
  "0 \<le> i \<Longrightarrow> parent s = map fst M \<Longrightarrow> children s = map snd M \<Longrightarrow>
   list_all (edge_ok n (length (out s))) (drop (nat i) M) \<Longrightarrow>
   \<exists>s'. edges_loop i n s = Inr s' \<and> out s' = edge_steps n (out s) (drop (nat i) M) \<and>
        orig s' = orig s \<and> parent s' = parent s \<and> children s' = children s \<and>
        m_var s' = m_var s"
proof (induction i n s rule: edges_loop.induct)
  case (1 i n s)
  show ?case
  proof (cases "i < int (length (parent s))")
    case False
    with 1 show ?thesis by (simp add: edges_loop.simps [of i n s])
  next
    case True
    with 1 have lt: "nat i < length M" by simp
    then have dr: "drop (nat i) M = M ! nat i # drop (nat (i + 1)) M"
      using 1(2) by (simp add: Cons_nth_drop_Suc nat_add_distrib)
    with 1(5) have ok: "edge_ok n (length (out s)) (M ! nat i)"
      and rest: "list_all (edge_ok n (length (out s))) (drop (nat (i + 1)) M)"
      by simp_all
    from edge_body_ok [OF 1(2) lt 1(3) 1(4) ok] obtain s1 where
      b: "edge_body i n s = Inr s1" and o: "out s1 = edge_step n (out s) (M ! nat i)"
      and f: "orig s1 = orig s" "parent s1 = parent s" "children s1 = children s"
        "m_var s1 = m_var s"
      by blast
    have "\<exists>s'. edges_loop (i + 1) n s1 = Inr s' \<and>
            out s' = edge_steps n (out s1) (drop (nat (i + 1)) M) \<and>
            orig s' = orig s1 \<and> parent s' = parent s1 \<and> children s' = children s1 \<and>
            m_var s' = m_var s1"
      using 1(1) [OF True b] 1(2) 1(3) 1(4) rest f o by simp
    then show ?thesis
      using True b o f dr by (simp add: edges_loop.simps [of i n s])
  qed
qed

text \<open>
  The seeding loop returns when the table has \<open>nTips\<close> containers at least, and then
  appends \<open>k + 1\<close> to the container at index \<open>k\<close> for the indices below \<open>nTips\<close>.
  The sorting loop sorts every container.
\<close>

lemma seed_tips_ok:
  "0 \<le> i \<Longrightarrow> n \<le> int (length (out s)) \<Longrightarrow>
   \<exists>s'. seed_tips i n s = Inr s' \<and>
        out s' = map (\<lambda>k. if nat i \<le> k \<and> int k < n then out s ! k @ [int k + 1] else out s ! k)
                   [0..<length (out s)] \<and>
        orig s' = orig s \<and> parent s' = parent s \<and> children s' = children s \<and>
        m_var s' = m_var s"
proof (induction i n s rule: seed_tips.induct)
  case (1 i n s)
  show ?case
  proof (cases "i < n")
    case False
    then show ?thesis by (auto simp: seed_tips.simps [of i n s] intro!: nth_equalityI)
  next
    case True
    with 1(2,3) have ib: "in_bounds (out s) i" by (simp add: in_bounds_def)
    let ?s1 = "s\<lparr>out := (out s)[nat i := out s ! nat i @ [i + 1]]\<rparr>"
    from 1(1) [OF True ib] 1(2,3) obtain s' where
      r: "seed_tips (i + 1) n ?s1 = Inr s'"
      and o: "out s' = map (\<lambda>k. if nat (i + 1) \<le> k \<and> int k < n then out ?s1 ! k @ [int k + 1]
                                 else out ?s1 ! k) [0..<length (out ?s1)]"
      and f: "orig s' = orig s" "parent s' = parent s" "children s' = children s"
        "m_var s' = m_var s"
      by auto
    have "out s' = map (\<lambda>k. if nat i \<le> k \<and> int k < n then out s ! k @ [int k + 1] else out s ! k)
                     [0..<length (out s)]"
      unfolding o using 1(2) True
      by (intro nth_equalityI) (auto simp: nth_list_update)
    then show ?thesis
      using True ib r f by (simp add: seed_tips.simps [of i n s])
  qed
qed

lemma seed_tips_replicate:
  assumes "n \<le> int L" "out s = replicate L []"
  shows "\<exists>s'. seed_tips 0 n s = Inr s' \<and> out s' = seeded n L \<and>
        orig s' = orig s \<and> parent s' = parent s \<and> children s' = children s \<and>
        m_var s' = m_var s"
proof -
  from seed_tips_ok [of 0 n s] assms obtain s' where
    r: "seed_tips 0 n s = Inr s'"
    and o: "out s' = map (\<lambda>k. if nat 0 \<le> k \<and> int k < n then out s ! k @ [int k + 1] else out s ! k)
                   [0..<length (out s)]"
    and f: "orig s' = orig s" "parent s' = parent s" "children s' = children s"
        "m_var s' = m_var s"
    by auto
  have "out s' = seeded n L"
    unfolding o seeded_def using assms(2) by (intro nth_equalityI) auto
  with r f show ?thesis by simp
qed

lemma sort_loop_ok:
  "0 \<le> i \<Longrightarrow> m_var s = int (length (out s)) \<Longrightarrow>
   \<exists>s'. sort_loop i s = Inr s' \<and>
        out s' = take (nat i) (out s) @ map sort (drop (nat i) (out s)) \<and>
        orig s' = orig s \<and> m_var s' = m_var s"
proof (induction i s rule: sort_loop.induct)
  case (1 i s)
  show ?case
  proof (cases "i < m_var s")
    case False
    with 1(2,3) show ?thesis by (simp add: sort_loop.simps [of i s])
  next
    case True
    with 1(2,3) have ib: "in_bounds (out s) i" by (simp add: in_bounds_def)
    from True 1(2,3) have lt: "nat i < length (out s)" by simp
    let ?s1 = "s\<lparr>out := (out s)[nat i := sort (out s ! nat i)]\<rparr>"
    from 1(1) [OF True ib] 1(2,3) obtain s' where
      r: "sort_loop (i + 1) ?s1 = Inr s'"
      and o: "out s' = take (nat (i + 1)) (out ?s1) @ map sort (drop (nat (i + 1)) (out ?s1))"
      and f: "orig s' = orig s" "m_var s' = m_var s"
      by auto
    have "out s' = take (nat i) (out s) @ map sort (drop (nat i) (out s))"
      unfolding o using lt 1(2)
      by (simp add: nat_add_distrib take_Suc_conv_app_nth Cons_nth_drop_Suc [symmetric])
    then show ?thesis
      using True ib r f by (simp add: sort_loop.simps [of i s])
  qed
qed

lemma max_sugar_maxNodeId: "M \<noteq> [] \<Longrightarrow> max_sugar d (map fst M) = maxNodeId M"
  by (cases M) (simp_all add: maxNodeId_def Max.set_eq_fold del: set_simps)

text \<open>
  A run whose table can be allocated, whose tips fit into the table and whose rows are
  all in range returns the sorted containers.
\<close>

lemma bipCPP_run_ok:
  assumes m: "0 \<le> max_sugar d (map fst M)" "n \<le> max_sugar d (map fst M)"
    and ok: "list_all (edge_ok n (nat (max_sugar d (map fst M)))) M"
  shows "bipCPP d M n = Inr (map sort (edge_steps n (seeded n (nat (max_sugar d (map fst M)))) M))"
proof -
  let ?m = "max_sugar d (map fst M)"
  let ?s1 = "(init_frame d M)\<lparr>out := replicate (nat ?m) []\<rparr>"
  have r1: "alloc_out (init_frame d M) = Inr ?s1"
    using m(1) by (simp add: alloc_out_def init_frame_def)
  from seed_tips_replicate [of n "nat ?m" ?s1] m obtain s2 where
    r2: "seed_tips 0 n ?s1 = Inr s2" and o2: "out s2 = seeded n (nat ?m)"
    and f2: "parent s2 = map fst M" "children s2 = map snd M" "m_var s2 = ?m"
    by (auto simp: init_frame_def)
  have len2: "length (out s2) = nat ?m" by (simp add: o2 seeded_def)
  from edges_loop_ok [of 0 s2 M n] f2 ok len2 obtain s3 where
    r3: "edges_loop 0 n s2 = Inr s3" and o3: "out s3 = edge_steps n (out s2) M"
    and f3: "m_var s3 = ?m"
    by auto
  have "m_var s3 = int (length (out s3))" using f3 o3 len2 m by simp
  from sort_loop_ok [of 0 s3, OF _ this] obtain s4 where
    r4: "sort_loop 0 s3 = Inr s4" and o4: "out s4 = map sort (out s3)"
    by auto
  show ?thesis
    using r1 r2 r3 r4 o4 o3 o2 by (simp add: bipCPP_def bipCPP_run_def)
qed

subsection \<open>Runs that leave the range\<close>

text \<open>
  A loop body that returns has read and written in range. A loop ends early only at
  an index out of range; the seeding loop reaches one on a table that is too short,
  after it has seeded every container of the table.
\<close>

lemma edge_body_Inr:
  assumes "edge_body i n s = Inr s'"
  shows "in_bounds (parent s) i" "in_bounds (children s) i"
    "in_bounds (out s) (parent s ! nat i - 1)"
    "n < children s ! nat i \<Longrightarrow> in_bounds (out s) (children s ! nat i - 1)"
    "out s' = edge_step n (out s) (parent s ! nat i, children s ! nat i)"
    "orig s' = orig s" "parent s' = parent s" "children s' = children s" "m_var s' = m_var s"
  using assms
  by (auto simp: edge_body_def Let_def edge_step_def split: if_splits)

lemma edge_body_Inl: "edge_body i n s = Inl f \<Longrightarrow> fst f = OutOfBounds"
  by (auto simp: edge_body_def Let_def split: if_splits)

lemma seed_tips_Inl: "seed_tips i n s = Inl f \<Longrightarrow> fst f = OutOfBounds"
proof (induction i n s rule: seed_tips.induct)
  case (1 i n s)
  then show ?case
    by (auto simp: seed_tips.simps [of i n s] split: if_splits)
qed

lemma sort_loop_Inl: "sort_loop i s = Inl f \<Longrightarrow> fst f = OutOfBounds"
proof (induction i s rule: sort_loop.induct)
  case (1 i s)
  then show ?case
    by (auto simp: sort_loop.simps [of i s] split: if_splits)
qed

lemma edges_loop_Inl: "edges_loop i n s = Inl f \<Longrightarrow> fst f = OutOfBounds"
proof (induction i n s rule: edges_loop.induct)
  case (1 i n s)
  then show ?case
    by (auto simp: edges_loop.simps [of i n s] edge_body_Inl split: if_splits sum.splits)
qed

lemma edges_loop_Inr:
  "edges_loop i n s = Inr s' \<Longrightarrow> 0 \<le> i \<Longrightarrow> parent s = map fst M \<Longrightarrow>
   children s = map snd M \<Longrightarrow> list_all (edge_ok n (length (out s))) (drop (nat i) M)"
proof (induction i n s rule: edges_loop.induct)
  case (1 i n s)
  show ?case
  proof (cases "i < int (length (parent s))")
    case False
    with 1(4) show ?thesis by simp
  next
    case True
    with 1(2) obtain s1 where b: "edge_body i n s = Inr s1"
      and r: "edges_loop (i + 1) n s1 = Inr s'"
      by (auto simp: edges_loop.simps [of i n s] split: sum.splits)
    note e = edge_body_Inr [OF b]
    from True 1(3,4) have lt: "nat i < length M" by simp
    then have dr: "drop (nat i) M = M ! nat i # drop (nat (i + 1)) M"
      using 1(3) by (simp add: Cons_nth_drop_Suc nat_add_distrib)
    have pc: "M ! nat i = (parent s ! nat i, children s ! nat i)"
      using lt 1(4,5) by (simp add: prod_eq_iff)
    have "edge_ok n (length (out s)) (M ! nat i)"
      unfolding pc edge_ok_def using e(3,4) by (auto simp: in_bounds_def)
    moreover have "list_all (edge_ok n (length (out s1))) (drop (nat (i + 1)) M)"
      using 1(1) [OF True b r] 1(3,4,5) e(7,8) by simp
    moreover have "length (out s1) = length (out s)" using e(5) by simp
    ultimately show ?thesis using dr by simp
  qed
qed

lemma seed_tips_overrun_frame:
  "0 \<le> i \<Longrightarrow> i \<le> int (length (out s)) \<Longrightarrow> int (length (out s)) < n \<Longrightarrow>
   \<exists>s'. seed_tips i n s = Inl (OutOfBounds, s') \<and>
        out s' = map (\<lambda>k. if nat i \<le> k then out s ! k @ [int k + 1] else out s ! k)
                   [0..<length (out s)]"
proof (induction i n s rule: seed_tips.induct)
  case (1 i n s)
  show ?case
  proof (cases "in_bounds (out s) i")
    case False
    with 1(2-4) have i: "i = int (length (out s))" by (simp add: in_bounds_def)
    have "out s = map (\<lambda>k. if nat i \<le> k then out s ! k @ [int k + 1] else out s ! k)
                    [0..<length (out s)]"
      unfolding i by (intro nth_equalityI) simp_all
    moreover have "seed_tips i n s = Inl (OutOfBounds, s)"
      using False 1(3,4) by (simp add: seed_tips.simps [of i n s])
    ultimately show ?thesis by blast
  next
    case True
    from 1(2-4) have lt: "i < n" by simp
    let ?s1 = "s\<lparr>out := (out s)[nat i := out s ! nat i @ [i + 1]]\<rparr>"
    from True have "i + 1 \<le> int (length (out s))" by (simp add: in_bounds_def)
    with 1(1) [OF lt True] 1(2,4) obtain s' where
      r: "seed_tips (i + 1) n ?s1 = Inl (OutOfBounds, s')"
      and o: "out s' = map (\<lambda>k. if nat (i + 1) \<le> k then out ?s1 ! k @ [int k + 1]
                                 else out ?s1 ! k) [0..<length (out ?s1)]"
      by auto
    have "out s' = map (\<lambda>k. if nat i \<le> k then out s ! k @ [int k + 1] else out s ! k)
                     [0..<length (out s)]"
      unfolding o using 1(2) True
      by (intro nth_equalityI) (auto simp: nth_list_update)
    with r lt True show ?thesis by (simp add: seed_tips.simps [of i n s])
  qed
qed

lemma seed_tips_Inr:
  assumes "seed_tips 0 n s = Inr s'"
  shows "n \<le> int (length (out s))"
proof (rule ccontr)
  assume "\<not> n \<le> int (length (out s))"
  with seed_tips_overrun_frame [of 0 s n] assms show False by auto
qed

text \<open>
  So a run reaches the \<open>return\<close> statement exactly when the table can be
  allocated, the tips fit and every row is in range; otherwise the allocation throws
  (\<open>LengthError\<close>) when \<open>m\<close> is negative, and the run reaches an index out of
  range (\<open>OutOfBounds\<close>) when it is not.
\<close>

lemma bipCPP_returns_iff:
  "(\<exists>res. bipCPP d M n = Inr res) \<longleftrightarrow>
   0 \<le> max_sugar d (map fst M) \<and> n \<le> max_sugar d (map fst M) \<and>
   list_all (edge_ok n (nat (max_sugar d (map fst M)))) M"
proof
  assume "0 \<le> max_sugar d (map fst M) \<and> n \<le> max_sugar d (map fst M) \<and>
    list_all (edge_ok n (nat (max_sugar d (map fst M)))) M"
  then show "\<exists>res. bipCPP d M n = Inr res" using bipCPP_run_ok [of d M n] by simp
next
  let ?m = "max_sugar d (map fst M)"
  assume "\<exists>res. bipCPP d M n = Inr res"
  then obtain s1 s2 s3 where r1: "alloc_out (init_frame d M) = Inr s1"
    and r2: "seed_tips 0 n s1 = Inr s2" and r3: "edges_loop 0 n s2 = Inr s3"
    by (auto simp: bipCPP_def bipCPP_run_def split: sum.splits)
  from r1 have m: "0 \<le> ?m" and s1: "s1 = (init_frame d M)\<lparr>out := replicate (nat ?m) []\<rparr>"
    by (auto simp: alloc_out_def init_frame_def split: if_splits)
  from seed_tips_Inr [OF r2] m s1 have n: "n \<le> ?m" by simp
  from seed_tips_replicate [of n "nat ?m" s1] m n s1 r2
  have o2: "out s2 = seeded n (nat ?m)" and f2: "parent s2 = map fst M" "children s2 = map snd M"
    by (auto simp: init_frame_def)
  have "length (out s2) = nat ?m" by (simp add: o2 seeded_def)
  with edges_loop_Inr [OF r3 _ f2] have "list_all (edge_ok n (nat ?m)) M" by simp
  with m n show "0 \<le> ?m \<and> n \<le> ?m \<and> list_all (edge_ok n (nat ?m)) M" by simp
qed

lemma bipCPP_Inl:
  assumes "bipCPP d M n = Inl e"
  shows "e = (if max_sugar d (map fst M) < 0 then LengthError else OutOfBounds)"
proof (cases "max_sugar d (map fst M) < 0")
  case True
  with assms show ?thesis
    by (simp add: bipCPP_def bipCPP_run_def alloc_out_def init_frame_def)
next
  case False
  then obtain s1 where r1: "alloc_out (init_frame d M) = Inr s1"
    by (simp add: alloc_out_def init_frame_def)
  show ?thesis
  proof (cases "seed_tips 0 n s1")
    case (Inl f)
    with seed_tips_Inl [OF Inl] assms r1 False show ?thesis
      by (cases f) (simp add: bipCPP_def bipCPP_run_def)
  next
    case s2: (Inr s2)
    show ?thesis
    proof (cases "edges_loop 0 n s2")
      case (Inl f)
      with edges_loop_Inl [OF Inl] assms r1 s2 False show ?thesis
        by (cases f) (simp add: bipCPP_def bipCPP_run_def)
    next
      case s3: (Inr s3)
      show ?thesis
      proof (cases "sort_loop 0 s3")
        case (Inl f)
        with sort_loop_Inl [OF Inl] assms r1 s2 s3 False show ?thesis
          by (cases f) (simp add: bipCPP_def bipCPP_run_def)
      next
        case (Inr s4)
        with assms r1 s2 s3 show ?thesis by (simp add: bipCPP_def bipCPP_run_def)
      qed
    qed
  qed
qed

lemma bipCPP_bad_edge:
  assumes "e \<in> set M" "\<not> edge_ok n (nat (max_sugar d (map fst M))) e"
  shows "bipCPP d M n = Inl (if max_sugar d (map fst M) < 0 then LengthError else OutOfBounds)"
proof (cases "bipCPP d M n")
  case (Inl e')
  with bipCPP_Inl [OF Inl] show ?thesis by simp
next
  case (Inr res)
  then have "list_all (edge_ok n (nat (max_sugar d (map fst M)))) M"
    using bipCPP_returns_iff [of d M n] by blast
  with assms show ?thesis by (simp add: list_all_iff)
qed

lemma bipCPP_negative_max:
  "max_sugar d (map fst M) < 0 \<Longrightarrow> bipCPP_run d M n = Inl (LengthError, init_frame d M)"
  by (simp add: bipCPP_run_def alloc_out_def init_frame_def)

lemma bipCPP_run_Inl:
  "bipCPP d M n = Inl e \<Longrightarrow> \<exists>s. bipCPP_run d M n = Inl (e, s)"
  by (auto simp: bipCPP_def split: sum.splits)

subsection \<open>The matrix and its columns\<close>

text \<open>
  No statement assigns to \<open>orig\<close>, \<open>parent\<close> or \<open>children\<close>: as far as a statement or
  a loop is followed, it leaves the three as it found them.
\<close>

lemma inputs_edge_body:
  "orig (last_frame (edge_body i n s)) = orig s \<and>
   parent (last_frame (edge_body i n s)) = parent s \<and>
   children (last_frame (edge_body i n s)) = children s"
  by (simp add: edge_body_def last_frame_def Let_def)

lemma inputs_seed_tips:
  "orig (last_frame (seed_tips i n s)) = orig s \<and>
   parent (last_frame (seed_tips i n s)) = parent s \<and>
   children (last_frame (seed_tips i n s)) = children s"
proof (induction i n s rule: seed_tips.induct)
  case (1 i n s)
  then show ?case
    by (simp add: seed_tips.simps [of i n s] last_frame_def)
qed

lemma inputs_sort_loop:
  "orig (last_frame (sort_loop i s)) = orig s \<and>
   parent (last_frame (sort_loop i s)) = parent s \<and>
   children (last_frame (sort_loop i s)) = children s"
proof (induction i s rule: sort_loop.induct)
  case (1 i s)
  then show ?case
    by (simp add: sort_loop.simps [of i s] last_frame_def)
qed

lemma inputs_edges_loop:
  "orig (last_frame (edges_loop i n s)) = orig s \<and>
   parent (last_frame (edges_loop i n s)) = parent s \<and>
   children (last_frame (edges_loop i n s)) = children s"
proof (induction i n s rule: edges_loop.induct)
  case (1 i n s)
  show ?case
  proof (cases "edge_body i n s")
    case (Inl f)
    with inputs_edge_body [of i n s] show ?thesis
      by (simp add: edges_loop.simps [of i n s] last_frame_def split: prod.splits)
  next
    case (Inr s1)
    with inputs_edge_body [of i n s] 1 show ?thesis
      by (simp add: edges_loop.simps [of i n s] last_frame_def)
  qed
qed

lemma inputs_alloc_out:
  "orig (last_frame (alloc_out s)) = orig s \<and>
   parent (last_frame (alloc_out s)) = parent s \<and>
   children (last_frame (alloc_out s)) = children s"
  by (simp add: alloc_out_def last_frame_def)

lemma inputs_bipCPP_run:
  "orig (last_frame (bipCPP_run d M n)) = M \<and>
   parent (last_frame (bipCPP_run d M n)) = map fst M \<and>
   children (last_frame (bipCPP_run d M n)) = map snd M"
proof (cases "alloc_out (init_frame d M)")
  case (Inl f)
  with inputs_alloc_out [of "init_frame d M"] show ?thesis
    by (simp add: bipCPP_run_def init_frame_def)
next
  case s1: (Inr s1)
  with inputs_alloc_out [of "init_frame d M"]
  have o1: "orig s1 = M" "parent s1 = map fst M" "children s1 = map snd M"
    by (simp_all add: last_frame_def init_frame_def)
  show ?thesis
  proof (cases "seed_tips 0 n s1")
    case (Inl f)
    with inputs_seed_tips [of 0 n s1] o1 s1 show ?thesis
      by (simp add: bipCPP_run_def)
  next
    case s2: (Inr s2)
    with inputs_seed_tips [of 0 n s1] o1
    have o2: "orig s2 = M" "parent s2 = map fst M" "children s2 = map snd M"
      by (simp_all add: last_frame_def)
    show ?thesis
    proof (cases "edges_loop 0 n s2")
      case (Inl f)
      with inputs_edges_loop [of 0 n s2] o2 s1 s2 show ?thesis
        by (simp add: bipCPP_run_def)
    next
      case (Inr s3)
      with inputs_edges_loop [of 0 n s2] o2
      have "orig s3 = M" "parent s3 = map fst M" "children s3 = map snd M"
        by (simp_all add: last_frame_def)
      with inputs_sort_loop [of 0 s3] s1 s2 Inr show ?thesis
        by (simp add: bipCPP_run_def)
    qed
  qed
qed

section \<open>The table of a valid tree\<close>

subsection \<open>Containers under the loop over the edges\<close>

text \<open>
  A row changes the container of its parent only. A node that is the parent of no
  row keeps its container, containers never lose a label, and in bottom-up order the
  container of a node ends as its initial content followed by what each of its rows
  appended.
\<close>

lemma entry_edge_step:
  "1 \<le> p \<Longrightarrow> p \<le> int (length v) \<Longrightarrow> 1 \<le> i \<Longrightarrow>
   entry (edge_step n v (p, c)) i = (if i = p then entry v p @ appended n v c else entry v i)"
  by (auto simp: entry_def edge_step_def appended_def nth_list_update)

lemma entry_edge_steps_frame:
  "1 \<le> i \<Longrightarrow> i \<notin> set (map fst M) \<Longrightarrow> list_all (edge_ok n (length v)) M \<Longrightarrow>
   entry (edge_steps n v M) i = entry v i"
proof (induction M arbitrary: v)
  case Nil
  then show ?case by simp
next
  case (Cons e M)
  obtain p c where e: "e = (p, c)" by (cases e)
  with Cons.prems have "1 \<le> p" "p \<le> int (length v)" "i \<noteq> p"
    by (auto simp: edge_ok_pair)
  then have "entry (edge_step n v e) i = entry v i"
    using Cons.prems(1) e by (simp add: entry_edge_step)
  moreover have "entry (edge_steps n (edge_step n v e) M) i = entry (edge_step n v e) i"
    using Cons.prems by (intro Cons.IH) simp_all
  ultimately show ?case by simp
qed



lemma entry_edge_steps_concat:
  "list_all (edge_ok n (length v)) M \<Longrightarrow> bottom_up n M \<Longrightarrow> 1 \<le> i \<Longrightarrow>
   entry (edge_steps n v M) i = entry v i @ concat (map (appended n (edge_steps n v M)) (children_of M i))"
proof (induction M arbitrary: v)
  case Nil
  then show ?case by (simp add: children_of_def)
next
  case (Cons e M)
  obtain p c where e: "e = (p, c)" by (cases e)
  let ?v1 = "edge_step n v e"
  let ?F = "edge_steps n v (e # M)"
  from Cons.prems e have p: "1 \<le> p" "p \<le> int (length v)"
    and c: "n < c \<longrightarrow> 1 \<le> c \<and> c \<noteq> p \<and> c \<notin> set (map fst M)"
    and ok: "list_all (edge_ok n (length ?v1)) M" and bu: "bottom_up n M"
    by (auto simp: edge_ok_pair)
  have ih: "entry ?F i = entry ?v1 i @ concat (map (appended n ?F) (children_of M i))"
    using Cons.IH [OF ok bu Cons.prems(3)] by simp
  show ?case
  proof (cases "i = p")
    case False
    with ih p Cons.prems(3) e show ?thesis
      by (simp add: entry_edge_step children_of_def)
  next
    case True
    have "appended n ?F c = appended n v c"
    proof (cases "n < c")
      case False
      then show ?thesis by (simp add: appended_def)
    next
      case True
      with c have "1 \<le> c" "c \<notin> set (map fst (e # M))" using e by auto
      then have "entry ?F c = entry v c"
        using Cons.prems(1) by (intro entry_edge_steps_frame)
      with True show ?thesis by (simp add: appended_def)
    qed
    with ih p True e show ?thesis
      by (simp add: entry_edge_step children_of_def)
  qed
qed

subsection \<open>The invariant\<close>

lemma entry_seeded:
  "1 \<le> i \<Longrightarrow> i \<le> int L \<Longrightarrow> entry (seeded n L) i = (if i \<le> n then [i] else [])"
  by (auto simp: entry_def seeded_def)

lemma tree_inv_seeded:
  assumes "n \<le> int L"
  shows "tree_inv n L {} (seeded n L)"
proof -
  have "(\<Union>i \<in> {i. 1 \<le> i \<and> i \<le> int L \<and> i \<notin> {}}. set (entry (seeded n L) i)) = {1..n}"
    using assms by (auto simp: entry_seeded split: if_splits)
  moreover have "length (seeded n L) = L" by (simp add: seeded_def)
  ultimately show ?thesis
    unfolding tree_inv_def using assms by (auto simp: entry_seeded split: if_splits)
qed

lemma tree_inv_step:
  assumes inv: "tree_inv n L C v"
    and p: "1 \<le> p" "p \<le> int L" "n < p" "p \<notin> C"
    and c: "1 \<le> c" "c \<le> int L" "c \<notin> C" "c \<noteq> p"
  shows "tree_inv n L (insert c C) (edge_step n v (p, c))"
proof -
  let ?w = "edge_step n v (p, c)"
  from inv have len: "length v = L"
    and dist: "\<And>i. 1 \<le> i \<Longrightarrow> i \<le> int L \<Longrightarrow> distinct (entry v i)"
    and disj: "\<And>i i'. 1 \<le> i \<Longrightarrow> i \<le> int L \<Longrightarrow> i \<notin> C \<Longrightarrow> 1 \<le> i' \<Longrightarrow> i' \<le> int L \<Longrightarrow>
                 i' \<notin> C \<Longrightarrow> i \<noteq> i' \<Longrightarrow> set (entry v i) \<inter> set (entry v i') = {}"
    and tips: "\<And>t. 1 \<le> t \<Longrightarrow> t \<le> n \<Longrightarrow> entry v t = [t]"
    and cover: "(\<Union>i \<in> {i. 1 \<le> i \<and> i \<le> int L \<and> i \<notin> C}. set (entry v i)) = {1..n}"
    unfolding tree_inv_def by blast+
  have it: "appended n v c = entry v c"
    using tips [of c] c by (simp add: appended_def)
  have w: "\<And>i. 1 \<le> i \<Longrightarrow> entry ?w i = (if i = p then entry v p @ entry v c else entry v i)"
    using p len by (simp add: entry_edge_step it)
  have pc: "set (entry v p) \<inter> set (entry v c) = {}"
    using disj [of p c] p c by simp
  have 1: "length ?w = L" using len by simp
  have 2: "distinct (entry ?w i)" if "1 \<le> i" "i \<le> int L" for i
    using that dist [of i] dist [of p] dist [of c] p c pc by (simp add: w)
  have 3: "set (entry ?w i) \<inter> set (entry ?w i') = {}"
    if "1 \<le> i" "i \<le> int L" "i \<notin> insert c C" "1 \<le> i'" "i' \<le> int L" "i' \<notin> insert c C" "i \<noteq> i'"
    for i i'
  proof -
    have a: "set (entry v i) \<inter> set (entry v i') = {}" using that disj [of i i'] by simp
    have b: "set (entry v c) \<inter> set (entry v i') = {}" using that c disj [of c i'] by simp
    have d: "set (entry v i) \<inter> set (entry v c) = {}" using that c disj [of i c] by simp
    from a b d that show ?thesis by (auto simp: w)
  qed
  have 4: "entry ?w t = [t]" if "1 \<le> t" "t \<le> n" for t
    using that tips [of t] p by (simp add: w)
  have 5: "(\<Union>i \<in> {i. 1 \<le> i \<and> i \<le> int L \<and> i \<notin> insert c C}. set (entry ?w i)) = {1..n}"
  proof -
    have "(\<Union>i \<in> {i. 1 \<le> i \<and> i \<le> int L \<and> i \<notin> insert c C}. set (entry ?w i)) =
          (\<Union>i \<in> {i. 1 \<le> i \<and> i \<le> int L \<and> i \<notin> C}. set (entry v i))"
    proof (intro set_eqI iffI)
      fix x
      assume "x \<in> (\<Union>i \<in> {i. 1 \<le> i \<and> i \<le> int L \<and> i \<notin> insert c C}. set (entry ?w i))"
      then obtain i where i: "1 \<le> i" "i \<le> int L" "i \<notin> C" "i \<noteq> c" "x \<in> set (entry ?w i)"
        by auto
      show "x \<in> (\<Union>i \<in> {i. 1 \<le> i \<and> i \<le> int L \<and> i \<notin> C}. set (entry v i))"
      proof (cases "i = p")
        case False
        with i show ?thesis by (auto simp: w)
      next
        case True
        with i have "x \<in> set (entry v p) \<or> x \<in> set (entry v c)" by (simp add: w)
        with p c show ?thesis by auto
      qed
    next
      fix x
      assume "x \<in> (\<Union>i \<in> {i. 1 \<le> i \<and> i \<le> int L \<and> i \<notin> C}. set (entry v i))"
      then obtain i where i: "1 \<le> i" "i \<le> int L" "i \<notin> C" "x \<in> set (entry v i)"
        by auto
      show "x \<in> (\<Union>i \<in> {i. 1 \<le> i \<and> i \<le> int L \<and> i \<notin> insert c C}. set (entry ?w i))"
      proof (cases "i = c \<or> i = p")
        case True
        with i have "x \<in> set (entry ?w p)" using p by (auto simp: w)
        with p c show ?thesis by blast
      next
        case False
        with i have "x \<in> set (entry ?w i)" by (simp add: w)
        with i False show ?thesis by blast
      qed
    qed
    with cover show ?thesis by simp
  qed
  show ?thesis
    unfolding tree_inv_def using 1 2 3 4 5 by blast
qed

lemma tree_inv_steps:
  "tree_inv n L C v \<Longrightarrow>
   (\<forall>e \<in> set M. 1 \<le> fst e \<and> fst e \<le> int L \<and> n < fst e \<and> fst e \<notin> C \<and>
                1 \<le> snd e \<and> snd e \<le> int L \<and> snd e \<notin> C) \<Longrightarrow>
   distinct (map snd M) \<Longrightarrow> bottom_up n M \<Longrightarrow>
   tree_inv n L (C \<union> set (map snd M)) (edge_steps n v M)"
proof (induction M arbitrary: v C)
  case Nil
  then show ?case by simp
next
  case (Cons e M)
  obtain p c where e: "e = (p, c)" by (cases e)
  from Cons.prems e have p: "1 \<le> p" "p \<le> int L" "n < p" "p \<notin> C"
    and c: "1 \<le> c" "c \<le> int L" "c \<notin> C"
    by auto
  from Cons.prems(4) e p have cp: "c \<noteq> p" by (cases "n < c") auto
  have inv1: "tree_inv n L (insert c C) (edge_step n v e)"
    unfolding e using Cons.prems(1) p c cp by (rule tree_inv_step)
  have nc: "fst e' \<noteq> c" if "e' \<in> set M" for e'
  proof (cases "n < c")
    case True
    with Cons.prems(4) e that show ?thesis by auto
  next
    case False
    with Cons.prems(2) that show ?thesis by force
  qed
  have rest: "\<forall>e \<in> set M. 1 \<le> fst e \<and> fst e \<le> int L \<and> n < fst e \<and> fst e \<notin> insert c C \<and>
                1 \<le> snd e \<and> snd e \<le> int L \<and> snd e \<notin> insert c C"
    using Cons.prems(2,3) e nc by auto
  have "tree_inv n L (insert c C \<union> set (map snd M)) (edge_steps n (edge_step n v e) M)"
    using inv1 rest Cons.prems(3,4) by (intro Cons.IH) simp_all
  then show ?case using e by simp
qed

subsection \<open>The run on a valid tree\<close>

lemma valid_tree_facts:
  assumes "valid_tree M n"
  shows "max_sugar d (map fst M) = maxNodeId M" "0 < n" "n \<le> maxNodeId M"
    "list_all (edge_ok n (nat (maxNodeId M))) M"
    "\<forall>e \<in> set M. 1 \<le> fst e \<and> fst e \<le> int (nat (maxNodeId M)) \<and> n < fst e \<and> fst e \<notin> {} \<and>
                 1 \<le> snd e \<and> snd e \<le> int (nat (maxNodeId M)) \<and> snd e \<notin> {}"
    "distinct (map snd M)" "bottom_up n M"
    "\<forall>e \<in> set M. 1 \<le> fst e \<and> fst e \<le> maxNodeId M \<and> n < fst e \<and>
                 1 \<le> snd e \<and> snd e \<le> maxNodeId M"
proof -
  from assms have ne: "M \<noteq> []" and n: "0 < n" "n \<le> maxNodeId M"
    and ids: "\<And>e. e \<in> set M \<Longrightarrow> 0 < fst e \<and> 0 < snd e \<and> snd e \<le> maxNodeId M"
    and tips: "\<And>t. 1 \<le> t \<Longrightarrow> t \<le> n \<Longrightarrow> t \<notin> set (map fst M)"
    and d: "distinct (map snd M)" and b: "bottom_up n M"
    unfolding valid_tree_def by auto
  have pm: "fst e \<le> maxNodeId M" if "e \<in> set M" for e
    unfolding maxNodeId_def using that by (intro Max_ge) auto
  have np: "n < fst e" if "e \<in> set M" for e
    using tips [of "fst e"] ids [OF that] that by (cases "fst e \<le> n") auto
  show "max_sugar d (map fst M) = maxNodeId M" using ne by (rule max_sugar_maxNodeId)
  show "0 < n" "n \<le> maxNodeId M" "distinct (map snd M)" "bottom_up n M" by fact+
  show "list_all (edge_ok n (nat (maxNodeId M))) M"
    unfolding list_all_iff edge_ok_def using ids pm n by fastforce
  show "\<forall>e \<in> set M. 1 \<le> fst e \<and> fst e \<le> int (nat (maxNodeId M)) \<and> n < fst e \<and> fst e \<notin> {} \<and>
                 1 \<le> snd e \<and> snd e \<le> int (nat (maxNodeId M)) \<and> snd e \<notin> {}"
    using ids pm np n by fastforce
  show "\<forall>e \<in> set M. 1 \<le> fst e \<and> fst e \<le> maxNodeId M \<and> n < fst e \<and>
                 1 \<le> snd e \<and> snd e \<le> maxNodeId M"
    using ids pm np by fastforce
qed

lemma valid_bipCPP:
  assumes "valid_tree M n"
  shows "bipCPP d M n = Inr (map sort (final_table n M))"
  using bipCPP_run_ok [of d M n] valid_tree_facts(1) [OF assms, of d]
    valid_tree_facts(2-4) [OF assms]
  by (simp add: final_table_def)

lemma length_final_table [simp]: "length (final_table n M) = nat (maxNodeId M)"
  by (simp add: final_table_def seeded_def)

lemma valid_tree_inv:
  assumes "valid_tree M n"
  shows "tree_inv n (nat (maxNodeId M)) (set (map snd M)) (final_table n M)"
proof -
  have "tree_inv n (nat (maxNodeId M)) {} (seeded n (nat (maxNodeId M)))"
    using valid_tree_facts(2,3) [OF assms] by (intro tree_inv_seeded) simp
  from tree_inv_steps [OF this valid_tree_facts(5-7) [OF assms]]
  show ?thesis by (simp add: final_table_def)
qed

lemma valid_tip_entry:
  assumes "valid_tree M n" "1 \<le> t" "t \<le> n"
  shows "entry (final_table n M) t = [t]"
  using valid_tree_inv [OF assms(1)] assms(2,3) unfolding tree_inv_def by blast

lemma valid_distinct_entry:
  assumes "valid_tree M n" "1 \<le> i" "i \<le> maxNodeId M"
  shows "distinct (entry (final_table n M) i)"
  using valid_tree_inv [OF assms(1)] assms(2,3) unfolding tree_inv_def by simp

lemma valid_internal_entry:
  assumes v: "valid_tree M n" and i: "n < i" "i \<le> maxNodeId M"
  shows "entry (final_table n M) i = concat (map (entry (final_table n M)) (children_of M i))"
proof -
  let ?L = "nat (maxNodeId M)"
  let ?F = "final_table n M"
  note f = valid_tree_facts [OF v]
  have i1: "1 \<le> i" using i f(2) by simp
  have "list_all (edge_ok n (length (seeded n ?L))) M" using f(4) by (simp add: seeded_def)
  from entry_edge_steps_concat [OF this f(7) i1]
  have "entry ?F i = entry (seeded n ?L) i @ concat (map (appended n ?F) (children_of M i))"
    by (simp add: final_table_def)
  moreover have "entry (seeded n ?L) i = []" using i i1 by (simp add: entry_seeded)
  moreover have "map (appended n ?F) (children_of M i) = map (entry ?F) (children_of M i)"
  proof (rule map_cong [OF refl])
    fix c assume "c \<in> set (children_of M i)"
    then have "1 \<le> c" using f(8) by (auto simp: children_of_def)
    then show "appended n ?F c = entry ?F c"
      using valid_tip_entry [OF v, of c] by (simp add: appended_def)
  qed
  ultimately show ?thesis by simp
qed

lemma children_of_iff: "c \<in> set (children_of M i) \<longleftrightarrow> (i, c) \<in> set M"
  by (force simp: children_of_def)

text \<open>
  The labels of a container are tips that a path of edges reaches from its node, and
  every such tip is in the container.
\<close>

lemma leaves_sound_steps:
  "(\<And>i t. 1 \<le> i \<Longrightarrow> i \<le> int (length v) \<Longrightarrow> t \<in> set (entry v i) \<Longrightarrow>
      1 \<le> t \<and> t \<le> n \<and> (i, t) \<in> E\<^sup>*) \<Longrightarrow>
   list_all (edge_ok n (length v)) M \<Longrightarrow> (\<forall>e \<in> set M. 1 \<le> snd e) \<Longrightarrow> set M \<subseteq> E \<Longrightarrow>
   1 \<le> i \<Longrightarrow> i \<le> int (length v) \<Longrightarrow> t \<in> set (entry (edge_steps n v M) i) \<Longrightarrow>
   1 \<le> t \<and> t \<le> n \<and> (i, t) \<in> E\<^sup>*"
proof (induction M arbitrary: v i t)
  case Nil
  then show ?case by simp
next
  case (Cons e M)
  obtain p c where e: "e = (p, c)" by (cases e)
  from Cons.prems(2) e have p: "1 \<le> p" "p \<le> int (length v)"
    and c: "n < c \<longrightarrow> c \<le> int (length v)"
    and ok: "list_all (edge_ok n (length (edge_step n v e))) M"
    by (auto simp: edge_ok_pair)
  from Cons.prems(3,4) e have c1: "1 \<le> c" and pc: "(p, c) \<in> E" by auto
  have inv1: "1 \<le> t' \<and> t' \<le> n \<and> (i', t') \<in> E\<^sup>*"
    if "1 \<le> i'" "i' \<le> int (length (edge_step n v e))" "t' \<in> set (entry (edge_step n v e) i')" for i' t'
  proof (cases "i' = p \<and> t' \<in> set (appended n v c)")
    case False
    with that p e have "t' \<in> set (entry v i')" by (auto simp: entry_edge_step split: if_splits)
    with Cons.prems(1) that show ?thesis by simp
  next
    case ip: True
    show ?thesis
    proof (cases "n < c")
      case True
      with ip have "t' \<in> set (entry v c)" by (simp add: appended_def)
      with Cons.prems(1) [of c t'] c1 c True have "1 \<le> t' \<and> t' \<le> n \<and> (c, t') \<in> E\<^sup>*"
        by simp
      with pc ip show ?thesis
        by (auto intro: converse_rtrancl_into_rtrancl)
    next
      case False
      with ip have "t' = c" by (simp add: appended_def)
      with False c1 pc ip show ?thesis by auto
    qed
  qed
  have "1 \<le> t \<and> t \<le> n \<and> (i, t) \<in> E\<^sup>*"
  proof (rule Cons.IH [of "edge_step n v e" i t])
    show "1 \<le> t' \<and> t' \<le> n \<and> (i', t') \<in> E\<^sup>*"
      if "1 \<le> i'" "i' \<le> int (length (edge_step n v e))" "t' \<in> set (entry (edge_step n v e) i')" for i' t'
      using that by (rule inv1)
    show "list_all (edge_ok n (length (edge_step n v e))) M" by (rule ok)
    show "\<forall>e \<in> set M. 1 \<le> snd e" using Cons.prems(3) by simp
    show "set M \<subseteq> E" using Cons.prems(4) by simp
    show "1 \<le> i" by fact
    show "i \<le> int (length (edge_step n v e))" using Cons.prems(6) by simp
    show "t \<in> set (entry (edge_steps n (edge_step n v e) M) i)" using Cons.prems(7) by simp
  qed
  then show ?case .
qed

lemma valid_leaves_sound:
  assumes v: "valid_tree M n" and i: "1 \<le> i" "i \<le> maxNodeId M"
    and t: "t \<in> set (entry (final_table n M) i)"
  shows "1 \<le> t \<and> t \<le> n \<and> (i, t) \<in> (set M)\<^sup>*"
proof -
  let ?L = "nat (maxNodeId M)"
  note f = valid_tree_facts [OF v]
  have len: "length (seeded n ?L) = ?L" by (simp add: seeded_def)
  show ?thesis
  proof (rule leaves_sound_steps [of "seeded n ?L" n "set M" M i t])
    show "1 \<le> t' \<and> t' \<le> n \<and> (i', t') \<in> (set M)\<^sup>*"
      if "1 \<le> i'" "i' \<le> int (length (seeded n ?L))" "t' \<in> set (entry (seeded n ?L) i')"
      for i' t'
      using that by (auto simp: len entry_seeded split: if_splits)
    show "list_all (edge_ok n (length (seeded n ?L))) M" using f(4) by (simp add: len)
    show "\<forall>e \<in> set M. 1 \<le> snd e" using f(8) by simp
    show "set M \<subseteq> set M" by simp
    show "1 \<le> i" by fact
    show "i \<le> int (length (seeded n ?L))" using i by (simp add: len)
    show "t \<in> set (entry (edge_steps n (seeded n ?L) M) i)" using t by (simp add: final_table_def)
  qed
qed

lemma valid_leaves_complete:
  assumes v: "valid_tree M n" and r: "(i, t) \<in> (set M)\<^sup>*" and t: "1 \<le> t" "t \<le> n"
    and i: "1 \<le> i" "i \<le> maxNodeId M"
  shows "t \<in> set (entry (final_table n M) i)"
  using r i
proof (induction rule: converse_rtrancl_induct)
  case base
  with valid_tip_entry [OF v t] show ?case by simp
next
  case (step i c)
  note f = valid_tree_facts [OF v]
  from step.hyps(1) f(8) have c: "1 \<le> c" "c \<le> maxNodeId M" and ni: "n < i" by auto
  from step.IH [OF c] have "t \<in> set (entry (final_table n M) c)" .
  moreover have "c \<in> set (children_of M i)" using step.hyps(1) by (simp add: children_of_iff)
  ultimately show ?case
    using valid_internal_entry [OF v ni step.prems(2)] by auto
qed

lemma valid_leaf_set:
  assumes v: "valid_tree M n" and i: "n < i" "i \<le> maxNodeId M"
  shows "set (entry (final_table n M) i) = leaf_set M n i"
proof -
  note f = valid_tree_facts [OF v]
  have i1: "1 \<le> i" using i f(2) by simp
  have eq: "(i, t) \<in> (set M)\<^sup>+ \<longleftrightarrow> (i, t) \<in> (set M)\<^sup>*" if "t \<le> n" for t
    using that i by (auto simp: rtrancl_eq_or_trancl)
  show ?thesis
    unfolding leaf_set_def
    using valid_leaves_sound [OF v i1 i(2)] valid_leaves_complete [OF v _ _ _ i1 i(2)] eq
    by blast
qed

lemma nth_sorted_table:
  "1 \<le> i \<Longrightarrow> i \<le> maxNodeId M \<Longrightarrow>
   map sort (final_table n M) ! nat (i - 1) = sort (entry (final_table n M) i)"
  by (simp add: entry_def)

lemma sort_concat_sorted: "sort (concat (map (\<lambda>x. sort (f x)) xs)) = sort (concat (map f xs))"
  by (rule properties_for_sort) (simp_all add: mset_concat comp_def)

lemma sort_distinct: "distinct xs \<Longrightarrow> sort xs = sorted_list_of_set (set xs)"
  by (simp add: sorted_list_of_set_sort_remdups distinct_remdups_id)

lemma roots_single:
  assumes "length (roots M) = 1" "1 \<le> r" "r \<le> maxNodeId M" "r \<notin> set (map snd M)"
  shows "{i. 1 \<le> i \<and> i \<le> int (nat (maxNodeId M)) \<and> i \<notin> set (map snd M)} = {r}"
proof -
  from assms(1) obtain r' where r': "roots M = [r']"
    by (cases "roots M") simp_all
  have s: "set (roots M) = {i. 1 \<le> i \<and> i \<le> maxNodeId M \<and> i \<notin> set (map snd M)}"
    by (auto simp: roots_def)
  with assms(2-4) have "r \<in> set (roots M)" by simp
  with r' have "r' = r" by simp
  with s r' have "{i. 1 \<le> i \<and> i \<le> maxNodeId M \<and> i \<notin> set (map snd M)} = {r}" by simp
  moreover have "int (nat (maxNodeId M)) = maxNodeId M" using assms(2,3) by simp
  ultimately show ?thesis by simp
qed

text \<open>
  Two trees on three tips. In the first the root carries the largest id; in the
  second node 4 is the root and node 5 the parent of the tips 1 and 2.
\<close>

lemma valid_scenario_B: "valid_tree [(4, 1), (4, 2), (5, 3), (5, 4)] 3"
  by (simp add: valid_tree_def maxNodeId_def roots_def upto_rec1)

lemma valid_nonmax_root: "valid_tree [(5, 1), (5, 2), (4, 5), (4, 3)] 3"
  by (simp add: valid_tree_def maxNodeId_def roots_def upto_rec1)

section \<open>The claims\<close>

text \<open>The equations that evaluate a run on a given matrix.\<close>

lemmas bipCPP_eval =
  bipCPP_def bipCPP_run_def init_frame_def alloc_out_def seed_tips.simps edges_loop.simps
  sort_loop.simps edge_body_def in_bounds_def

subsection \<open>Descendant sets of a valid tree\<close>

text \<open>
  Claim C1. On a valid tree the run returns a table with one entry per node id, and
  for every internal node \<open>i\<close> (an id above \<open>nTips\<close>, up to \<open>maxNodeId\<close>) the
  returned entry of \<open>i\<close> is the ascending, duplicate-free list of the union of the
  returned entries of the children of \<open>i\<close>. The entries of the children share no
  label: the entry of \<open>i\<close> is also the sorted concatenation of theirs and has no
  duplicates. Its elements are the tips below \<open>i\<close>, the leaf set of its subtree.
\<close>

theorem bipCPP_internal_union:
  assumes "valid_tree M nTips" "nTips < i" "i \<le> maxNodeId M"
  shows "\<exists>res. bipCPP d M nTips = Inr res \<and> length res = nat (maxNodeId M) \<and>
           res ! nat (i - 1) =
             sorted_list_of_set (\<Union>c \<in> set (children_of M i). set (res ! nat (c - 1))) \<and>
           res ! nat (i - 1) = sort (concat (map (\<lambda>c. res ! nat (c - 1)) (children_of M i))) \<and>
           distinct (res ! nat (i - 1)) \<and>
           set (res ! nat (i - 1)) = leaf_set M nTips i"
proof -
  let ?F = "final_table nTips M"
  let ?res = "map sort ?F"
  note f = valid_tree_facts [OF assms(1)]
  have i1: "1 \<le> i" using assms(2) f(2) by simp
  have ri: "?res ! nat (i - 1) = sort (entry ?F i)"
    using i1 assms(3) by (rule nth_sorted_table)
  have rc: "?res ! nat (c - 1) = sort (entry ?F c)" if "c \<in> set (children_of M i)" for c
    using that f(8) by (intro nth_sorted_table) (auto simp: children_of_def)
  have ent: "entry ?F i = concat (map (entry ?F) (children_of M i))"
    using assms by (rule valid_internal_entry)
  have dist: "distinct (entry ?F i)"
    using assms(1) i1 assms(3) by (rule valid_distinct_entry)
  have m: "map (\<lambda>c. ?res ! nat (c - 1)) (children_of M i) =
           map (\<lambda>c. sort (entry ?F c)) (children_of M i)"
    using rc by (intro map_cong) simp_all
  have 1: "?res ! nat (i - 1) = sort (concat (map (\<lambda>c. ?res ! nat (c - 1)) (children_of M i)))"
    unfolding m sort_concat_sorted ri using ent by simp
  have "set (entry ?F i) = (\<Union>c \<in> set (children_of M i). set (?res ! nat (c - 1)))"
    using rc by (subst ent) simp
  then have 2: "?res ! nat (i - 1) =
      sorted_list_of_set (\<Union>c \<in> set (children_of M i). set (?res ! nat (c - 1)))"
    using dist by (simp only: ri sort_distinct)
  have 3: "distinct (?res ! nat (i - 1))" using dist by (simp add: ri)
  have 4: "set (?res ! nat (i - 1)) = leaf_set M nTips i"
    using valid_leaf_set [OF assms] by (simp add: ri)
  have "bipCPP d M nTips = Inr ?res" using assms(1) by (rule valid_bipCPP)
  moreover have "length ?res = nat (maxNodeId M)" by simp
  ultimately show ?thesis using 1 2 3 4 by blast
qed

text \<open>
  Node 5 of the tree with the edges \<open>(4,1), (4,2), (5,3), (5,4)\<close>: its children are
  the tip 3 and the node 4, and the tips below it are 1, 2 and 3.
\<close>

theorem bipCPP_internal_union_witness:
  "valid_tree [(4, 1), (4, 2), (5, 3), (5, 4)] 3 \<and> (3::int) < 5 \<and>
   5 \<le> maxNodeId [(4, 1), (4, 2), (5, 3), (5, 4)] \<and>
   bipCPP 0 [(4, 1), (4, 2), (5, 3), (5, 4)] 3 = Inr [[1], [2], [3], [1, 2], [1, 2, 3]] \<and>
   children_of [(4, 1), (4, 2), (5, 3), (5, 4)] 5 = [3, 4] \<and>
   leaf_set [(4, 1), (4, 2), (5, 3), (5, 4)] 3 5 = {1, 2, 3}"
proof -
  let ?M = "[(4, 1), (4, 2), (5, 3), (5, 4)] :: IntegerMatrix"
  have v: "valid_tree ?M 3" by (rule valid_scenario_B)
  have m: "5 \<le> maxNodeId ?M" by (simp add: maxNodeId_def)
  have e: "bipCPP 0 ?M 3 = Inr [[1], [2], [3], [1, 2], [1, 2, 3]]"
    by (simp add: bipCPP_eval eval_nat_numeral)
  from bipCPP_internal_union [OF v _ m, of 0] obtain res where
    "bipCPP 0 ?M 3 = Inr res" and "set (res ! nat (5 - 1)) = leaf_set ?M 3 5"
    by auto
  with e have "leaf_set ?M 3 5 = set ([[1], [2], [3], [1, 2], [1, 2, 3]] ! nat (5 - 1))"
    by simp
  then have "leaf_set ?M 3 5 = {1, 2, 3}" by (simp add: eval_nat_numeral)
  with v m e show ?thesis by (simp add: children_of_def)
qed

text \<open>
  Claim C4. On a valid tree the returned entry of every tip \<open>i\<close> of \<open>1..nTips\<close> is the
  one-element list \<open>[i]\<close>.
\<close>

theorem bipCPP_tip_singleton:
  assumes "valid_tree M nTips" "1 \<le> i" "i \<le> nTips"
  shows "\<exists>res. bipCPP d M nTips = Inr res \<and> res ! nat (i - 1) = [i]"
proof -
  note f = valid_tree_facts [OF assms(1)]
  have "map sort (final_table nTips M) ! nat (i - 1) = sort (entry (final_table nTips M) i)"
    using assms(2,3) f(3) by (intro nth_sorted_table) simp_all
  then have "map sort (final_table nTips M) ! nat (i - 1) = [i]"
    using valid_tip_entry [OF assms] by simp
  with valid_bipCPP [OF assms(1), of d] show ?thesis by simp
qed

theorem bipCPP_tip_singleton_witness:
  "valid_tree [(4, 1), (4, 2), (5, 3), (5, 4)] 3 \<and> (1::int) \<le> 2 \<and> (2::int) \<le> 3 \<and>
   (\<exists>res. bipCPP 0 [(4, 1), (4, 2), (5, 3), (5, 4)] 3 = Inr res \<and> res ! nat (2 - 1) = [2])"
proof -
  have v: "valid_tree [(4, 1), (4, 2), (5, 3), (5, 4)] 3" by (rule valid_scenario_B)
  from bipCPP_tip_singleton [OF v, of 2 0] v show ?thesis by simp
qed

text \<open>
  Claim C5. On the edges \<open>(4,1), (4,2), (5,3), (5,4)\<close> with three tips the run returns
  \<open>[1]\<close>, \<open>[2]\<close>, \<open>[3]\<close>, \<open>[1,2]\<close>, \<open>[1,2,3]\<close> for the nodes 1 to 5.
\<close>

theorem bipCPP_scenario_B:
  "bipCPP d [(4, 1), (4, 2), (5, 3), (5, 4)] 3 = Inr [[1], [2], [3], [1, 2], [1, 2, 3]]"
  by (simp add: bipCPP_eval eval_nat_numeral)

text \<open>
  Claim C6, amended. On a valid tree the returned entry of the root, the node of
  \<open>1..maxNodeId\<close> that is the child of no edge, is the list of all tips \<open>1..nTips\<close>.
  The root need not carry the largest id.
\<close>

theorem bipCPP_root_all_tips:
  assumes "valid_tree M nTips" "1 \<le> r" "r \<le> maxNodeId M" "r \<notin> set (map snd M)"
  shows "\<exists>res. bipCPP d M nTips = Inr res \<and> res ! nat (r - 1) = [1..nTips]"
proof -
  let ?F = "final_table nTips M"
  have one: "length (roots M) = 1" using assms(1) by (simp add: valid_tree_def)
  have "(\<Union>i \<in> {i. 1 \<le> i \<and> i \<le> int (nat (maxNodeId M)) \<and> i \<notin> set (map snd M)}. set (entry ?F i))
        = {1..nTips}"
    using valid_tree_inv [OF assms(1)] unfolding tree_inv_def by blast
  then have s: "set (entry ?F r) = set [1..nTips]"
    unfolding roots_single [OF one assms(2-4)] by simp
  have "distinct (entry ?F r)" using assms(1-3) by (rule valid_distinct_entry)
  with s have "mset (entry ?F r) = mset [1..nTips]"
    by (simp add: set_eq_iff_mset_eq_distinct [symmetric])
  then have "sort (entry ?F r) = [1..nTips]"
    by (intro properties_for_sort) simp_all
  moreover have "map sort ?F ! nat (r - 1) = sort (entry ?F r)"
    using assms(2,3) by (rule nth_sorted_table)
  ultimately show ?thesis using valid_bipCPP [OF assms(1), of d] by simp
qed

theorem bipCPP_root_all_tips_witness:
  "valid_tree [(5, 1), (5, 2), (4, 5), (4, 3)] 3 \<and>
   (\<exists>res. bipCPP 0 [(5, 1), (5, 2), (4, 5), (4, 3)] 3 = Inr res \<and> res ! nat (4 - 1) = [1..3])"
proof -
  have v: "valid_tree [(5, 1), (5, 2), (4, 5), (4, 3)] 3" by (rule valid_nonmax_root)
  have m: "(4::int) \<le> maxNodeId [(5, 1), (5, 2), (4, 5), (4, 3)]" by (simp add: maxNodeId_def)
  from bipCPP_root_all_tips [OF v _ m, of 0] v show ?thesis by simp
qed

text \<open>
  Claim C6 as stated fails on the valid tree with the edges
  \<open>(5,1), (5,2), (4,5), (4,3)\<close>: node 4 is the root, and node 5, the largest id,
  holds the tips 1 and 2 only.
\<close>

theorem bipCPP_max_id_counterexample:
  "valid_tree [(5, 1), (5, 2), (4, 5), (4, 3)] 3 \<and>
   maxNodeId [(5, 1), (5, 2), (4, 5), (4, 3)] = 5 \<and>
   bipCPP 0 [(5, 1), (5, 2), (4, 5), (4, 3)] 3 = Inr [[1], [2], [3], [1, 2, 3], [1, 2]] \<and>
   [[1], [2], [3], [1, 2, 3], [1, 2]] ! nat (5 - 1) \<noteq> [1..3]"
proof -
  have "bipCPP 0 [(5, 1), (5, 2), (4, 5), (4, 3)] 3 = Inr [[1], [2], [3], [1, 2, 3], [1, 2]]"
    by (simp add: bipCPP_eval eval_nat_numeral)
  moreover have "[[1], [2], [3], [1, 2, 3], [1, 2]] ! nat (5 - 1) \<noteq> [1..3::int]"
    by (simp add: upto_rec1 eval_nat_numeral)
  ultimately show ?thesis
    using valid_nonmax_root by (simp add: maxNodeId_def)
qed

subsection \<open>Inputs outside the contract\<close>





text \<open>
  Claim C3, amended. Nothing tests a child id against the size of the table. When a
  child id \<open>c\<close> is above \<open>nTips\<close> and above the largest parent id, the allocation of the
  table throws if the largest parent id is negative, and otherwise the run reaches an
  index out of range: at the row of \<open>c\<close>, if no earlier access has left the table,
  line 21 reads \<open>out[c - 1]\<close> past its end. The source defines no outcome of that
  access, so neither an input error nor a result is promised.
\<close>

theorem bipCPP_child_beyond_range:
  assumes "(p, c) \<in> set M" "nTips < c" "maxNodeId M < c"
  shows "(maxNodeId M < 0 \<longrightarrow> bipCPP_run d M nTips = Inl (LengthError, init_frame d M)) \<and>
         (0 \<le> maxNodeId M \<longrightarrow> (\<exists>s. bipCPP_run d M nTips = Inl (OutOfBounds, s))) \<and>
         (\<forall>s k. parent s = map fst M \<and> children s = map snd M \<and>
                length (out s) = nat (maxNodeId M) \<and> 0 \<le> k \<and> nat k < length M \<and>
                M ! nat k = (p, c) \<longrightarrow>
                edge_body k nTips s = Inl (OutOfBounds, s\<lparr>j_var := p - 1\<rparr>))"
proof (intro conjI impI allI)
  from assms(1) have "M \<noteq> []" by auto
  then have m: "max_sugar d (map fst M) = maxNodeId M" by (rule max_sugar_maxNodeId)
  have bad: "\<not> edge_ok nTips (nat (maxNodeId M)) (p, c)"
    using assms(2,3) by (auto simp: edge_ok_pair)
  {
    assume "maxNodeId M < 0"
    with m bipCPP_negative_max [of d M nTips]
    show "bipCPP_run d M nTips = Inl (LengthError, init_frame d M)" by simp
  }
  {
    assume "0 \<le> maxNodeId M"
    with bipCPP_bad_edge [of "(p, c)" M nTips d] assms(1) m bad
    have "bipCPP d M nTips = Inl OutOfBounds" by simp
    then show "\<exists>s. bipCPP_run d M nTips = Inl (OutOfBounds, s)" by (rule bipCPP_run_Inl)
  }
  fix s :: bip_state and k
  assume a: "parent s = map fst M \<and> children s = map snd M \<and>
                length (out s) = nat (maxNodeId M) \<and> 0 \<le> k \<and> nat k < length M \<and>
                M ! nat k = (p, c)"
  then have kl: "k < int (length M)" by linarith
  from a kl have "parent s ! nat k = p" "children s ! nat k = c"
    "in_bounds (parent s) k" "in_bounds (children s) k"
    by (simp_all add: in_bounds_def)
  moreover have "\<not> in_bounds (out s) (c - 1)"
    using a assms(3) by (auto simp: in_bounds_def)
  ultimately show "edge_body k nTips s = Inl (OutOfBounds, s\<lparr>j_var := p - 1\<rparr>)"
    using assms(2) by (simp add: edge_body_def Let_def)
qed

text \<open>The edges \<open>(3,1), (3,7)\<close> with two tips, at the second row.\<close>

theorem bipCPP_child_beyond_range_witness:
  "(3, 7) \<in> set [(3, 1), (3, 7)] \<and> (2::int) < 7 \<and> maxNodeId [(3, 1), (3, 7)] < 7 \<and>
   0 \<le> maxNodeId [(3, 1), (3, 7)] \<and>
   (\<exists>s. bipCPP_run 0 [(3, 1), (3, 7)] 2 = Inl (OutOfBounds, s)) \<and>
   edge_body 1 2 \<lparr>orig = [(3, 1), (3, 7)], parent = [3, 3], children = [1, 7], m_var = 3,
       j_var = 2, out = [[1], [2], [1]], y_var = []\<rparr> =
     Inl (OutOfBounds, \<lparr>orig = [(3, 1), (3, 7)], parent = [3, 3], children = [1, 7], m_var = 3,
       j_var = 2, out = [[1], [2], [1]], y_var = []\<rparr>)"
proof -
  let ?M = "[(3, 1), (3, 7)] :: IntegerMatrix"
  let ?s = "\<lparr>orig = ?M, parent = [3, 3], children = [1, 7], m_var = 3,
       j_var = 2, out = [[1], [2], [1]], y_var = []\<rparr>"
  have h: "(3, 7) \<in> set ?M" "(2::int) < 7" "maxNodeId ?M < 7" "0 \<le> maxNodeId ?M"
    by (simp_all add: maxNodeId_def)
  note t = bipCPP_child_beyond_range [OF h(1-3), of 0]
  from t h(4) have 1: "\<exists>s. bipCPP_run 0 ?M 2 = Inl (OutOfBounds, s)" by blast
  from t have "parent ?s = map fst ?M \<and> children ?s = map snd ?M \<and>
                length (out ?s) = nat (maxNodeId ?M) \<and> (0::int) \<le> 1 \<and> nat 1 < length ?M \<and>
                ?M ! nat 1 = (3, 7) \<longrightarrow>
                edge_body 1 2 ?s = Inl (OutOfBounds, ?s\<lparr>j_var := 3 - 1\<rparr>)"
    by blast
  then have 2: "edge_body 1 2 ?s = Inl (OutOfBounds, ?s)"
    by (simp add: maxNodeId_def)
  from h 1 2 show ?thesis by simp
qed

text \<open>
  Claim C3 as stated promises a signalled input error. On the edges \<open>(3,1), (3,6)\<close>
  with two tips no test has rejected the input when the run, with \<open>j = 2\<close> and the
  table \<open>[1]\<close>, \<open>[2]\<close>, \<open>[1]\<close>, reads \<open>out[5]\<close>: the run is at an access without
  defined behaviour, not at an error that the function raises.
\<close>

theorem bipCPP_child_beyond_range_counterexample:
  "(3, 6) \<in> set [(3, 1), (3, 6)] \<and> (2::int) < 6 \<and> maxNodeId [(3, 1), (3, 6)] < 6 \<and>
   bipCPP_run 0 [(3, 1), (3, 6)] 2 =
     Inl (OutOfBounds, \<lparr>orig = [(3, 1), (3, 6)], parent = [3, 3], children = [1, 6], m_var = 3,
       j_var = 2, out = [[1], [2], [1]], y_var = []\<rparr>) \<and>
   \<not> in_bounds [[1], [2], [1::int]] (6 - 1)"
  by (simp add: bipCPP_eval maxNodeId_def eval_nat_numeral)

text \<open>
  Claim C9. The seeding loop writes \<open>out[i]\<close> for \<open>i = 0, ..., nTips - 1\<close> into the
  table of \<open>max(parent)\<close> containers that line 13 has allocated. All its writes are
  in range exactly when \<open>nTips \<le> max(parent)\<close>; when \<open>nTips\<close> is larger the loop seeds
  every container of the table and then indexes past its end.
\<close>

theorem seed_tips_bounds:
  assumes "alloc_out (init_frame d M) = Inr s1"
  shows "length (out s1) = nat (max_sugar d (map fst M)) \<and>
         ((\<exists>s2. seed_tips 0 nTips s1 = Inr s2) \<longleftrightarrow> nTips \<le> max_sugar d (map fst M)) \<and>
         (max_sugar d (map fst M) < nTips \<longrightarrow>
            (\<exists>s2. seed_tips 0 nTips s1 = Inl (OutOfBounds, s2) \<and>
                  out s2 = map (\<lambda>k. [int k + 1]) [0..<nat (max_sugar d (map fst M))]) \<and>
            bipCPP d M nTips = Inl OutOfBounds)"
proof -
  let ?m = "max_sugar d (map fst M)"
  from assms have m: "0 \<le> ?m" and s1: "s1 = (init_frame d M)\<lparr>out := replicate (nat ?m) []\<rparr>"
    by (auto simp: alloc_out_def init_frame_def split: if_splits)
  have len: "length (out s1) = nat ?m" by (simp add: s1)
  have ok: "\<exists>s2. seed_tips 0 nTips s1 = Inr s2" if "nTips \<le> ?m"
    using seed_tips_ok [of 0 nTips s1] that m len by auto
  have bad: "(\<exists>s2. seed_tips 0 nTips s1 = Inl (OutOfBounds, s2) \<and>
                  out s2 = map (\<lambda>k. [int k + 1]) [0..<nat ?m]) \<and>
             bipCPP d M nTips = Inl OutOfBounds" if "?m < nTips"
  proof -
    from seed_tips_overrun_frame [of 0 s1 nTips] that m len obtain s2 where
      r: "seed_tips 0 nTips s1 = Inl (OutOfBounds, s2)"
      and o: "out s2 = map (\<lambda>k. if nat 0 \<le> k then out s1 ! k @ [int k + 1] else out s1 ! k)
                   [0..<length (out s1)]"
      by auto
    have "out s2 = map (\<lambda>k. [int k + 1]) [0..<nat ?m]"
      unfolding o by (simp add: s1)
    moreover have "bipCPP d M nTips = Inl OutOfBounds"
      using assms r by (simp add: bipCPP_def bipCPP_run_def)
    ultimately show ?thesis using r by simp
  qed
  have "nTips \<le> ?m" if "\<exists>s2. seed_tips 0 nTips s1 = Inr s2"
  proof (rule ccontr)
    assume "\<not> nTips \<le> ?m"
    with bad that show False by auto
  qed
  with ok bad len show ?thesis by blast
qed

text \<open>Three tips on the one edge \<open>(2,1)\<close>: the third write is \<open>out[2]\<close> in a table of two.\<close>

theorem seed_tips_bounds_witness:
  "alloc_out (init_frame 0 [(2, 1)]) =
     Inr \<lparr>orig = [(2, 1)], parent = [2], children = [1], m_var = 2, j_var = 0,
          out = [[], []], y_var = []\<rparr> \<and>
   max_sugar 0 (map fst [(2, 1)]) < 3 \<and>
   seed_tips 0 3 \<lparr>orig = [(2, 1)], parent = [2], children = [1], m_var = 2, j_var = 0,
          out = [[], []], y_var = []\<rparr> =
     Inl (OutOfBounds, \<lparr>orig = [(2, 1)], parent = [2], children = [1], m_var = 2, j_var = 0,
          out = [[1], [2]], y_var = []\<rparr>) \<and>
   bipCPP 0 [(2, 1)] 3 = Inl OutOfBounds"
proof -
  have a: "alloc_out (init_frame 0 [(2, 1)]) =
     Inr \<lparr>orig = [(2, 1)], parent = [2], children = [1], m_var = 2, j_var = 0,
          out = [[], []], y_var = []\<rparr>"
    by (simp add: alloc_out_def init_frame_def eval_nat_numeral)
  have s: "seed_tips 0 3 \<lparr>orig = [(2, 1)], parent = [2], children = [1], m_var = 2, j_var = 0,
          out = [[], []], y_var = []\<rparr> =
     Inl (OutOfBounds, \<lparr>orig = [(2, 1)], parent = [2], children = [1], m_var = 2, j_var = 0,
          out = [[1], [2]], y_var = []\<rparr>)"
    by (simp add: seed_tips.simps in_bounds_def)
  from seed_tips_bounds [OF a, of 3] a s show ?thesis by simp
qed

subsection \<open>Copies and frames\<close>

text \<open>
  Claim C7. At a row \<open>(p, c)\<close> with an internal child \<open>c\<close> (above \<open>nTips\<close>, both
  indices in range, \<open>p\<close> and \<open>c\<close> two nodes) the loop body copies the container of \<open>c\<close>
  into \<open>y\<close> and appends all of it to the container of \<open>p\<close>; the container of \<open>c\<close>,
  like every container but that of \<open>p\<close>, is as before. It stays so to the end of
  the loop, whatever the later rows append to the container of \<open>p\<close> or of other
  nodes, as long as \<open>c\<close> is the parent of no later row.
\<close>

theorem edge_copy_frame:
  assumes "parent s = map fst M" "children s = map snd M"
    and "0 \<le> i" "nat i < length M" "M ! nat i = (p, c)"
    and "nTips < c" "in_bounds (out s) (c - 1)" "in_bounds (out s) (p - 1)" "p \<noteq> c"
  shows "\<exists>s1. edge_body i nTips s = Inr s1 \<and>
           y_var s1 = out s ! nat (c - 1) \<and>
           out s1 ! nat (p - 1) = out s ! nat (p - 1) @ out s ! nat (c - 1) \<and>
           out s1 ! nat (c - 1) = out s ! nat (c - 1) \<and>
           length (out s1) = length (out s) \<and>
           (\<forall>k. k \<noteq> nat (p - 1) \<longrightarrow> out s1 ! k = out s ! k) \<and>
           (\<forall>s2. edges_loop (i + 1) nTips s1 = Inr s2 \<and>
                 c \<notin> set (map fst (drop (nat (i + 1)) M)) \<longrightarrow>
                 out s2 ! nat (c - 1) = out s ! nat (c - 1))"
proof -
  let ?s1 = "s\<lparr>j_var := p - 1, y_var := out s ! nat (c - 1),
               out := (out s)[nat (p - 1) := out s ! nat (p - 1) @ out s ! nat (c - 1)]\<rparr>"
  from assms(1-5) have pc: "parent s ! nat i = p" "children s ! nat i = c"
    and ib: "in_bounds (parent s) i" "in_bounds (children s) i"
    by (simp_all add: in_bounds_def)
  have b: "edge_body i nTips s = Inr ?s1"
    using pc ib assms(6-8) by (simp add: edge_body_def Let_def)
  from assms(7-9) have ne: "nat (p - 1) \<noteq> nat (c - 1)" and c1: "1 \<le> c"
    and lt: "nat (p - 1) < length (out s)"
    by (auto simp: in_bounds_def)
  have 1: "out ?s1 ! nat (p - 1) = out s ! nat (p - 1) @ out s ! nat (c - 1)"
    using lt by simp
  have 2: "out ?s1 ! nat (c - 1) = out s ! nat (c - 1)"
    using ne by simp
  have 3: "out s2 ! nat (c - 1) = out s ! nat (c - 1)"
    if r: "edges_loop (i + 1) nTips ?s1 = Inr s2"
      and nc: "c \<notin> set (map fst (drop (nat (i + 1)) M))" for s2
  proof -
    have i1: "0 \<le> i + 1" using assms(3) by simp
    have ok: "list_all (edge_ok nTips (length (out ?s1))) (drop (nat (i + 1)) M)"
      using edges_loop_Inr [OF r i1, of M] assms(1,2) by simp
    from edges_loop_ok [OF i1 _ _ ok] assms(1,2) r
    have "out s2 = edge_steps nTips (out ?s1) (drop (nat (i + 1)) M)" by simp
    then have "entry (out s2) c = entry (out ?s1) c"
      using entry_edge_steps_frame [OF c1 nc ok] by simp
    with 2 show ?thesis by (simp add: entry_def)
  qed
  have 0: "y_var ?s1 = out s ! nat (c - 1)" by simp
  have 4: "length (out ?s1) = length (out s)" by simp
  have 5: "out ?s1 ! k = out s ! k" if "k \<noteq> nat (p - 1)" for k
    using that by simp
  from b 0 1 2 3 4 5 show ?thesis by blast
qed

text \<open>
  The edges \<open>(4,1), (4,2), (5,4), (5,3)\<close> at the third row: node 5 receives the copy
  \<open>[1,2]\<close> of node 4 and grows to \<open>[1,2,3]\<close> with the last row; node 4 keeps \<open>[1,2]\<close>.
\<close>

theorem edge_copy_frame_witness:
  "parent \<lparr>orig = [(4, 1), (4, 2), (5, 4), (5, 3)], parent = [4, 4, 5, 5],
      children = [1, 2, 4, 3], m_var = 5, j_var = 3,
      out = [[1], [2], [3], [1, 2], []], y_var = []\<rparr> = map fst [(4, 1), (4, 2), (5, 4), (5, 3)] \<and>
   [(4, 1), (4, 2), (5, 4), (5, 3)] ! nat 2 = (5, 4) \<and> (3::int) < 4 \<and>
   edge_body 2 3 \<lparr>orig = [(4, 1), (4, 2), (5, 4), (5, 3)], parent = [4, 4, 5, 5],
      children = [1, 2, 4, 3], m_var = 5, j_var = 3,
      out = [[1], [2], [3], [1, 2], []], y_var = []\<rparr> =
     Inr \<lparr>orig = [(4, 1), (4, 2), (5, 4), (5, 3)], parent = [4, 4, 5, 5],
      children = [1, 2, 4, 3], m_var = 5, j_var = 4,
      out = [[1], [2], [3], [1, 2], [1, 2]], y_var = [1, 2]\<rparr> \<and>
   edges_loop (2 + 1) 3 \<lparr>orig = [(4, 1), (4, 2), (5, 4), (5, 3)], parent = [4, 4, 5, 5],
      children = [1, 2, 4, 3], m_var = 5, j_var = 4,
      out = [[1], [2], [3], [1, 2], [1, 2]], y_var = [1, 2]\<rparr> =
     Inr \<lparr>orig = [(4, 1), (4, 2), (5, 4), (5, 3)], parent = [4, 4, 5, 5],
      children = [1, 2, 4, 3], m_var = 5, j_var = 4,
      out = [[1], [2], [3], [1, 2], [1, 2, 3]], y_var = [1, 2]\<rparr> \<and>
   (\<exists>s1. edge_body 2 3 \<lparr>orig = [(4, 1), (4, 2), (5, 4), (5, 3)], parent = [4, 4, 5, 5],
      children = [1, 2, 4, 3], m_var = 5, j_var = 3,
      out = [[1], [2], [3], [1, 2], []], y_var = []\<rparr> = Inr s1 \<and>
      out s1 ! nat (4 - 1) = [1, 2])"
proof -
  let ?M = "[(4, 1), (4, 2), (5, 4), (5, 3)] :: IntegerMatrix"
  let ?s = "\<lparr>orig = ?M, parent = [4, 4, 5, 5],
      children = [1, 2, 4, 3], m_var = 5, j_var = 3,
      out = [[1], [2], [3], [1, 2], []], y_var = []\<rparr>"
  have b: "edge_body 2 3 ?s =
     Inr \<lparr>orig = ?M, parent = [4, 4, 5, 5],
      children = [1, 2, 4, 3], m_var = 5, j_var = 4,
      out = [[1], [2], [3], [1, 2], [1, 2]], y_var = [1, 2]\<rparr>"
    by (simp add: edge_body_def in_bounds_def eval_nat_numeral)
  have l: "edges_loop (2 + 1) 3 \<lparr>orig = ?M, parent = [4, 4, 5, 5],
      children = [1, 2, 4, 3], m_var = 5, j_var = 4,
      out = [[1], [2], [3], [1, 2], [1, 2]], y_var = [1, 2]\<rparr> =
     Inr \<lparr>orig = ?M, parent = [4, 4, 5, 5],
      children = [1, 2, 4, 3], m_var = 5, j_var = 4,
      out = [[1], [2], [3], [1, 2], [1, 2, 3]], y_var = [1, 2]\<rparr>"
    by (simp add: edges_loop.simps edge_body_def in_bounds_def eval_nat_numeral)
  have "\<exists>s1. edge_body 2 3 ?s = Inr s1 \<and>
           y_var s1 = out ?s ! nat (4 - 1) \<and>
           out s1 ! nat (5 - 1) = out ?s ! nat (5 - 1) @ out ?s ! nat (4 - 1) \<and>
           out s1 ! nat (4 - 1) = out ?s ! nat (4 - 1) \<and>
           length (out s1) = length (out ?s) \<and>
           (\<forall>k. k \<noteq> nat (5 - 1) \<longrightarrow> out s1 ! k = out ?s ! k) \<and>
           (\<forall>s2. edges_loop (2 + 1) 3 s1 = Inr s2 \<and>
                 4 \<notin> set (map fst (drop (nat (2 + 1)) ?M)) \<longrightarrow>
                 out s2 ! nat (4 - 1) = out ?s ! nat (4 - 1))"
    by (rule edge_copy_frame [of ?s ?M 2 5 4 3]) (simp_all add: in_bounds_def eval_nat_numeral)
  then have "\<exists>s1. edge_body 2 3 ?s = Inr s1 \<and> out s1 ! nat (4 - 1) = [1, 2]"
    by (auto simp: eval_nat_numeral)
  with b l show ?thesis by (simp add: eval_nat_numeral)
qed

text \<open>
  Claim C10. Every run, as far as it is followed (to the \<open>return\<close> statement, to
  the allocation that throws, or to an access out of range), has the caller's matrix
  as it was passed in, and the two local columns are still the copies of its columns.
\<close>

theorem bipCPP_input_unchanged:
  "orig (last_frame (bipCPP_run d M nTips)) = M \<and>
   parent (last_frame (bipCPP_run d M nTips)) = map fst M \<and>
   children (last_frame (bipCPP_run d M nTips)) = map snd M"
  by (rule inputs_bipCPP_run)

end
